theory Spec2Isabelle
  imports
    Complex_Main
    "HOL-Library.Word"
    "HOL-Library.Multiset"
    "HOL-Library.Char_ord"
    "HOL-Library.List_Lexorder"
begin

unbundle bit_operations_syntax

section \<open>The routing continuum of the locator service\<close>

text \<open>
  A shallow embedding of \<^verbatim>\<open>src/service/locator/routing.cpp\<close>: the constructor of
  \<^verbatim>\<open>continuum_t\<close>, the keyed and the keyless \<^verbatim>\<open>get\<close>, and \<^verbatim>\<open>all\<close>.

  What the translation unit takes from elsewhere is a parameter of the model:
  \<^item> \<open>H\<close>, the MD5 digest of mhash (\<^verbatim>\<open>mhash_init(MHASH_MD5)\<close>, \<^verbatim>\<open>mhash\<close>,
    \<^verbatim>\<open>mhash_deinit\<close>): a function from the hashed octets to the octets written into
    \<^verbatim>\<open>digest.hashed\<close>;
  \<^item> \<open>srt\<close>, \<^verbatim>\<open>std::sort\<close>: a function on element sequences, known only through its
    contract (\<open>sort_contract\<close> below), since the order it leaves between equivalent
    elements is unspecified;
  \<^item> \<open>rng0\<close>, the state of \<^verbatim>\<open>m_rng\<close> after \<^verbatim>\<open>m_rng.seed(rd())\<close>, and \<open>draw\<close>, one call
    \<^verbatim>\<open>m_distribution(m_rng)\<close>: the point drawn and the generator's next state.

  Weights and the \<^verbatim>\<open>double\<close> values computed from them are the rational numbers they
  denote; the arithmetic on them is exact, the rounding of the binary32 accumulator and of
  the binary64 quotient and product is not modelled. The records sent to the logging sink
  are not part of the model.
\<close>

subsection \<open>Data\<close>

type_synonym point_type = "32 word"

text \<open>
  Modelled from the spec: \<^verbatim>\<open>element_t\<close> of routing.hpp, which is not among the sources. An
  element is a pair of a 32-bit point and the identifier of a group member.
\<close>

record element_t =
  point :: point_type
  "value" :: string

text \<open>
  Modelled from the spec: \<^verbatim>\<open>stored_type\<close> of routing.hpp, a \<^verbatim>\<open>std::map\<close> from member
  identifiers to weights. The list is the map in iteration order: \<^verbatim>\<open>std::map\<close> keeps its
  keys unique and iterates them in ascending order (\<open>map_order\<close>).
\<close>

type_synonym stored_type = "(string \<times> rat) list"

definition map_order :: "stored_type \<Rightarrow> bool" where
  "map_order grp \<longleftrightarrow> sorted_wrt (<) (map fst grp)"

record 'r continuum_t =
  m_elements :: "element_t list"
  m_rng :: 'r

datatype error_t = Error_t string

definition InvalidGroup :: error_t where
  "InvalidGroup = Error_t ''the total weight of the routing group must be positive''"

subsection \<open>Numbers\<close>

text \<open>\<^verbatim>\<open>std::numeric_limits<double>::epsilon()\<close> of IEEE-754 binary64.\<close>

definition epsilon :: rat where
  "epsilon = 1 / 2 ^ 52"

text \<open>\<^verbatim>\<open>lround\<close>: to the nearest integer, halfway cases away from zero.\<close>

definition lround :: "rat \<Rightarrow> int" where
  "lround x = (if 0 \<le> x then \<lfloor>x + 1 / 2\<rfloor> else \<lceil>x - 1 / 2\<rceil>)"

text \<open>The conversion of the \<^verbatim>\<open>long\<close> that \<^verbatim>\<open>lround\<close> returns to \<^verbatim>\<open>size_t\<close> (64 bits).\<close>

definition to_size_t :: "int \<Rightarrow> nat" where
  "to_size_t i = nat (i mod 2 ^ 64)"

text \<open>\<^verbatim>\<open>boost::accumulate(group | map_values, 0.0f)\<close>.\<close>

definition total_weight :: "stored_type \<Rightarrow> rat" where
  "total_weight grp = foldl (+) 0 (map snd grp)"

text \<open>
  \<^verbatim>\<open>::lround(slice * (64 * length))\<close> with \<^verbatim>\<open>slice = it->second / weight\<close>; the product
  \<^verbatim>\<open>64 * length\<close> is one of \<^verbatim>\<open>size_t\<close> values.
\<close>

definition steps_of :: "rat \<Rightarrow> nat \<Rightarrow> rat \<Rightarrow> nat" where
  "steps_of weight len w =
     (let slice = w / weight
      in to_size_t (lround (slice * of_nat ((64 * len) mod 2 ^ 64))))"

subsection \<open>Digests\<close>

text \<open>
  \<^verbatim>\<open>mhash(thread, value.data(), value.size())\<close> hashes the octets of a string.
\<close>

definition octets :: "string \<Rightarrow> 8 word list" where
  "octets s = map of_char s"

text \<open>
  \<^verbatim>\<open>mhash(thread, &step, sizeof(step))\<close> hashes the eight octets of a \<^verbatim>\<open>size_t\<close>, least
  significant first.
\<close>

definition encode_step :: "nat \<Rightarrow> 8 word list" where
  "encode_step step = map (\<lambda>i. of_nat (step div 256 ^ i)) [0..<8]"

text \<open>
  The union \<^verbatim>\<open>digest_t\<close> reads the sixteen octets of \<^verbatim>\<open>hashed\<close> as four \<^verbatim>\<open>point_type\<close>
  values, each from four octets, least significant first.
\<close>

primrec le_word :: "8 word list \<Rightarrow> point_type" where
  "le_word [] = 0"
| "le_word (b # bs) = ucast b OR push_bit 8 (le_word bs)"

definition digest_points :: "8 word list \<Rightarrow> point_type list" where
  "digest_points hashed = map (\<lambda>k. le_word (take 4 (drop (4 * k) hashed))) [0..<4]"

subsection \<open>MD5\<close>

text \<open>
  The digest that mhash computes under \<^verbatim>\<open>MHASH_MD5\<close>, after RFC 1321. The general
  properties below hold for every \<open>H\<close>; \<open>md5\<close> is the \<open>H\<close> of the concrete instances.
\<close>

text \<open>The additive constants: \<open>\<lfloor>2\<^sup>3\<^sup>2 \<times> \<bar>sin (i + 1)\<bar>\<rfloor>\<close> for \<open>i = 0, \<dots>, 63\<close>.\<close>

definition md5_K :: "32 word list" where
  "md5_K =
     [
      3614090360, 3905402710, 606105819, 3250441966,
      4118548399, 1200080426, 2821735955, 4249261313,
      1770035416, 2336552879, 4294925233, 2304563134,
      1804603682, 4254626195, 2792965006, 1236535329,
      4129170786, 3225465664, 643717713, 3921069994,
      3593408605, 38016083, 3634488961, 3889429448,
      568446438, 3275163606, 4107603335, 1163531501,
      2850285829, 4243563512, 1735328473, 2368359562,
      4294588738, 2272392833, 1839030562, 4259657740,
      2763975236, 1272893353, 4139469664, 3200236656,
      681279174, 3936430074, 3572445317, 76029189,
      3654602809, 3873151461, 530742520, 3299628645,
      4096336452, 1126891415, 2878612391, 4237533241,
      1700485571, 2399980690, 4293915773, 2240044497,
      1873313359, 4264355552, 2734768916, 1309151649,
      4149444226, 3174756917, 718787259, 3951481745]"

text \<open>The rotation amounts of the sixty-four operations.\<close>

definition md5_s :: "nat list" where
  "md5_s =
     [
      7, 12, 17, 22, 7, 12, 17, 22, 7, 12, 17, 22, 7, 12, 17, 22,
      5, 9, 14, 20, 5, 9, 14, 20, 5, 9, 14, 20, 5, 9, 14, 20,
      4, 11, 16, 23, 4, 11, 16, 23, 4, 11, 16, 23, 4, 11, 16, 23,
      6, 10, 15, 21, 6, 10, 15, 21, 6, 10, 15, 21, 6, 10, 15, 21]"

definition rotate_left :: "nat \<Rightarrow> 32 word \<Rightarrow> 32 word" where
  "rotate_left n w = push_bit n w OR drop_bit (32 - n) w"

type_synonym md5_state = "32 word \<times> 32 word \<times> 32 word \<times> 32 word"

text \<open>Operation \<open>i\<close> on the sixteen words \<open>M\<close> of a block.\<close>

definition md5_step :: "32 word list \<Rightarrow> nat \<Rightarrow> md5_state \<Rightarrow> md5_state" where
  "md5_step M i st =
     (case st of (a, b, c, d) \<Rightarrow>
        let f = (if i < 16 then (b AND c) OR (NOT b AND d)
                 else if i < 32 then (d AND b) OR (NOT d AND c)
                 else if i < 48 then b XOR c XOR d
                 else c XOR (b OR NOT d));
            g = (if i < 16 then i
                 else if i < 32 then (5 * i + 1) mod 16
                 else if i < 48 then (3 * i + 5) mod 16
                 else (7 * i) mod 16);
            f' = f + a + md5_K ! i + M ! g
        in (d, b + rotate_left (md5_s ! i) f', b, c))"

definition md5_block :: "8 word list \<Rightarrow> md5_state \<Rightarrow> md5_state" where
  "md5_block blk st =
     (let M = map (\<lambda>j. le_word (take 4 (drop (4 * j) blk))) [0..<16]
      in case (st, fold (md5_step M) [0..<64] st) of
           ((a0, b0, c0, d0), (a, b, c, d)) \<Rightarrow> (a0 + a, b0 + b, c0 + c, d0 + d))"

text \<open>
  Padding: one bit, zeros up to 56 octets modulo 64, and the length of the message in bits as
  eight octets, least significant first.
\<close>

definition md5_pad :: "8 word list \<Rightarrow> 8 word list" where
  "md5_pad bs =
     bs @ [128] @ replicate ((119 - length bs mod 64) mod 64) 0
        @ map (\<lambda>j. of_nat ((8 * length bs) mod 2 ^ 64 div 256 ^ j)) [0..<8]"

definition md5 :: "8 word list \<Rightarrow> 8 word list" where
  "md5 msg =
     (let bs = md5_pad msg;
          st = fold (\<lambda>n. md5_block (take 64 (drop (64 * n) bs))) [0..<length bs div 64]
                 (1732584193, 4023233417, 2562383102, 271733878)
      in case st of (a, b, c, d) \<Rightarrow>
           concat (map (\<lambda>w. map (\<lambda>j. ucast (drop_bit (8 * j) w)) [0..<4]) [a, b, c, d]))"

subsection \<open>Construction\<close>

text \<open>One pass of the inner loop: a digest of the member and the step, and its four points.\<close>

definition hash_round :: "(8 word list \<Rightarrow> 8 word list) \<Rightarrow> string \<Rightarrow> nat \<Rightarrow> element_t list" where
  "hash_round H v step =
     map (\<lambda>p. \<lparr>point = p, value = v\<rparr>) (digest_points (H (octets v @ encode_step step)))"

text \<open>One pass of the outer loop, for the group member \<open>(v, w)\<close>.\<close>

definition add_member ::
  "(8 word list \<Rightarrow> 8 word list) \<Rightarrow> rat \<Rightarrow> nat \<Rightarrow> string \<times> rat \<Rightarrow> element_t list \<Rightarrow> element_t list"
where
  "add_member H weight len it elements =
     (let steps = steps_of weight len (snd it); v = fst it
      in fold (\<lambda>step es. es @ hash_round H v step) [0..<steps] elements)"

definition populate :: "(8 word list \<Rightarrow> 8 word list) \<Rightarrow> stored_type \<Rightarrow> element_t list" where
  "populate H grp =
     fold (add_member H (total_weight grp) (length grp)) grp []"

text \<open>
  Modelled from the spec: the comparison of two elements, declared in routing.hpp, compares
  the points and has no secondary key.
\<close>

definition elem_less :: "element_t \<Rightarrow> element_t \<Rightarrow> bool" where
  "elem_less a b \<longleftrightarrow> point a < point b"

text \<open>
  What the C++ standard promises of \<^verbatim>\<open>std::sort\<close>: the result is a permutation of the
  input in which no element is less than an earlier one.
\<close>

definition sort_contract :: "(element_t list \<Rightarrow> element_t list) \<Rightarrow> bool" where
  "sort_contract srt \<longleftrightarrow>
     (\<forall>xs. mset (srt xs) = mset xs \<and> sorted_wrt (\<lambda>a b. \<not> elem_less b a) (srt xs))"

definition continuum_ctor ::
  "(element_t list \<Rightarrow> element_t list) \<Rightarrow> (8 word list \<Rightarrow> 8 word list) \<Rightarrow> 'r \<Rightarrow> stored_type
     \<Rightarrow> error_t + 'r continuum_t"
where
  "continuum_ctor srt H rng0 grp =
     (let len = length grp; weight = total_weight grp
      in if len = 0 \<or> weight < epsilon then Inl InvalidGroup
         else Inr \<lparr>m_elements = srt (populate H grp), m_rng = rng0\<rparr>)"

subsection \<open>Lookup\<close>

text \<open>
  \<^verbatim>\<open>std::upper_bound\<close> over the whole sequence, as the standard library's binary search:
  \<open>first\<close> and \<open>len\<close> delimit the range still to search.
\<close>

function upper_bound_loop :: "element_t list \<Rightarrow> point_type \<Rightarrow> nat \<Rightarrow> nat \<Rightarrow> nat" where
  "upper_bound_loop xs val first len =
     (if len = 0 then first
      else let half = len div 2; middle = first + half
           in if val < point (xs ! middle) then upper_bound_loop xs val first half
              else upper_bound_loop xs val (middle + 1) (len - half - 1))"
  by pat_completeness auto
termination
  by (relation "measure (\<lambda>(xs, val, first, len). len)") auto

declare upper_bound_loop.simps [simp del]

definition upper_bound :: "element_t list \<Rightarrow> point_type \<Rightarrow> nat" where
  "upper_bound xs val = upper_bound_loop xs val 0 (length xs)"

text \<open>
  \<^verbatim>\<open>it != m_elements.end() ? *it : m_elements.front()\<close>. On an empty sequence \<^verbatim>\<open>front()\<close>
  has no defined result: \<open>None\<close>.
\<close>

definition locate :: "element_t list \<Rightarrow> point_type \<Rightarrow> element_t option" where
  "locate elements p =
     (let it = upper_bound elements p
      in if it \<noteq> length elements then Some (elements ! it)
         else (case elements of [] \<Rightarrow> None | front # _ \<Rightarrow> Some front))"

text \<open>\<^verbatim>\<open>boost::accumulate(digest.points, 0, std::bit_xor<point_type>())\<close>.\<close>

definition key_point :: "(8 word list \<Rightarrow> 8 word list) \<Rightarrow> string \<Rightarrow> point_type" where
  "key_point H key = fold (\<lambda>p acc. acc XOR p) (digest_points (H (octets key))) 0"

text \<open>
  The three observers take the continuum and return their result with the continuum they
  leave behind. The result of a lookup is \<open>None\<close> where the source has no defined result.
\<close>

definition continuum_get ::
  "(8 word list \<Rightarrow> 8 word list) \<Rightarrow> 'r continuum_t \<Rightarrow> string \<Rightarrow> string option \<times> 'r continuum_t"
where
  "continuum_get H c key =
     (let p = key_point H key; rv = locate (m_elements c) p
      in (map_option value rv, c))"

definition continuum_get_keyless ::
  "('r \<Rightarrow> point_type \<times> 'r) \<Rightarrow> 'r continuum_t \<Rightarrow> string option \<times> 'r continuum_t"
where
  "continuum_get_keyless draw c =
     (let (p, rng') = draw (m_rng c); rv = locate (m_elements c) p
      in (map_option value rv, c\<lparr>m_rng := rng'\<rparr>))"

definition continuum_all ::
  "'r continuum_t \<Rightarrow> (point_type \<times> string) list \<times> 'r continuum_t"
where
  "continuum_all c = (map (\<lambda>element. (point element, value element)) (m_elements c), c)"

subsection \<open>Orders on the element sequence\<close>

text \<open>The points do not decrease along the sequence.\<close>

definition by_point :: "element_t list \<Rightarrow> bool" where
  "by_point xs \<longleftrightarrow> sorted_wrt (\<lambda>a b. point a \<le> point b) xs"

text \<open>The order by point, and by member identifier between elements of the same point.\<close>

definition by_point_value :: "element_t list \<Rightarrow> bool" where
  "by_point_value xs \<longleftrightarrow>
     sorted_wrt (\<lambda>a b. point a < point b \<or> (point a = point b \<and> value a \<le> value b)) xs"


section \<open>Properties\<close>

subsection \<open>Digests and hash rounds\<close>

lemma length_digest_points: "length (digest_points hashed) = 4"
  by (simp add: digest_points_def)

lemma length_hash_round: "length (hash_round H v step) = 4"
  by (simp add: hash_round_def length_digest_points)

lemma value_hash_round: "e \<in> set (hash_round H v s) \<Longrightarrow> value e = v"
  by (auto simp add: hash_round_def)

lemma map_value_hash_round: "map value (hash_round H v step) = replicate 4 v"
  by (simp add: hash_round_def comp_def map_replicate_const length_digest_points)

lemma hash_round_nonempty: "hash_round H v s \<noteq> []"
  using length_hash_round [of H v s] by auto

lemma key_point_xor:
  "key_point H k =
     le_word (take 4 (H (octets k))) XOR le_word (take 4 (drop 4 (H (octets k))))
       XOR le_word (take 4 (drop 8 (H (octets k)))) XOR le_word (take 4 (drop 12 (H (octets k))))"
proof -
  have "[0..<4] = [0, 1, 2, 3]" by (simp add: upt_rec)
  then show ?thesis by (simp add: key_point_def digest_points_def ac_simps)
qed

subsection \<open>Weights and step counts\<close>

lemma total_weight_sum: "total_weight g = sum_list (map snd g)"
proof -
  have "foldl (+) a xs = a + sum_list xs" for a :: rat and xs
    by (induction xs arbitrary: a) (simp_all add: add.assoc)
  then show ?thesis by (simp add: total_weight_def)
qed

lemma member_weight_le_total:
  fixes g :: stored_type
  assumes "\<forall>it\<in>set g. 0 \<le> snd it" "it \<in> set g"
  shows "snd it \<le> total_weight g"
proof -
  have "\<forall>x\<in>set xs. 0 \<le> x \<Longrightarrow> y \<in> set xs \<Longrightarrow> y \<le> sum_list xs" for xs :: "rat list" and y
  proof (induction xs)
    case Nil
    then show ?case by simp
  next
    case (Cons a xs)
    have "0 \<le> sum_list xs" using Cons.prems(1) by (intro sum_list_nonneg) simp
    with Cons show ?case by auto
  qed
  from this [of "map snd g" "snd it"] assms show ?thesis
    by (simp add: total_weight_sum)
qed

lemma exists_heavy_member:
  fixes g :: stored_type
  assumes "g \<noteq> []"
  shows "\<exists>it\<in>set g. total_weight g \<le> snd it * of_nat (length g)"
proof (rule ccontr)
  assume "\<not> ?thesis"
  then have "\<forall>it\<in>set g. snd it * of_nat (length g) < total_weight g"
    by (simp add: not_le)
  with assms have "(\<Sum>it\<leftarrow>g. snd it * of_nat (length g)) < (\<Sum>it\<leftarrow>g. total_weight g)"
    by (intro sum_list_strict_mono) auto
  then show False
    by (simp add: total_weight_sum sum_list_const_mult sum_list_triv sum_list_mult_const mult.commute)
qed

lemma lround_of_nat: "lround (of_nat n) = int n"
proof -
  have "\<lfloor>rat_of_nat n + 1 / 2\<rfloor> = int n" by (rule floor_unique) simp_all
  then show ?thesis by (simp add: lround_def)
qed



lemma steps_of_positive:
  assumes w: "0 \<le> w" and W: "0 < weight" and le: "w \<le> weight" and len: "len < 2 ^ 58"
  shows "steps_of weight len w = nat (lround (w / weight * of_nat (64 * len)))"
    and "int (steps_of weight len w) = lround (w / weight * of_nat (64 * len))"
proof -
  define x where "x = w / weight * of_nat (64 * len)"
  have m: "(64 * len) mod 2 ^ 64 = 64 * len" using len by simp
  have s: "0 \<le> w / weight" "w / weight \<le> 1" using w W le by simp_all
  have n: "(0::rat) \<le> of_nat (64 * len)" by simp
  have x: "0 \<le> x" "x \<le> of_nat (64 * len)"
    unfolding x_def
    using mult_nonneg_nonneg [OF s(1) n] mult_left_le_one_le [OF n s] by blast+
  have fl: "lround x = \<lfloor>x + 1 / 2\<rfloor>" using x(1) by (simp add: lround_def)
  have "0 \<le> x + 1 / 2" using x(1) by simp
  then have r1: "0 \<le> lround x" unfolding fl by (simp only: zero_le_floor)
  have "x + 1 / 2 < of_int (int (64 * len)) + 1" using x(2) by simp
  then have r2: "lround x \<le> int (64 * len)" unfolding fl by (simp only: floor_le_iff)
  note r = r1 r2
  then have "lround x < 2 ^ 64" using len by simp
  with r have md: "lround x mod 2 ^ 64 = lround x" by simp
  have "steps_of weight len w = nat (lround x mod 2 ^ 64)"
    unfolding steps_of_def to_size_t_def Let_def m x_def ..
  then have st: "steps_of weight len w = nat (lround x)"
    by (simp only: md)
  then show "steps_of weight len w = nat (lround (w / weight * of_nat (64 * len)))"
    by (simp only: x_def)
  from st r show "int (steps_of weight len w) = lround (w / weight * of_nat (64 * len))"
    by (simp add: x_def)
qed

lemma heavy_member_steps:
  fixes g :: stored_type
  assumes ne: "g \<noteq> []" and nonneg: "\<forall>it\<in>set g. 0 \<le> snd it"
    and W: "0 < total_weight g" and len: "length g < 2 ^ 58"
  shows "\<exists>it\<in>set g. 64 \<le> steps_of (total_weight g) (length g) (snd it)"
proof -
  from exists_heavy_member [OF ne] obtain it
    where it: "it \<in> set g" and heavy: "total_weight g \<le> snd it * of_nat (length g)"
    by blast
  have w: "0 \<le> snd it" using nonneg it by simp
  have le: "snd it \<le> total_weight g" by (rule member_weight_le_total [OF nonneg it])
  define x where "x = snd it / total_weight g * of_nat (64 * length g)"
  have "x = 64 * (snd it * of_nat (length g) / total_weight g)"
    by (simp add: x_def)
  moreover have "1 \<le> snd it * of_nat (length g) / total_weight g"
    using heavy W by simp
  ultimately have "64 \<le> x" by simp
  then have "64 \<le> lround x" by (simp add: lround_def le_floor_iff)
  moreover have "int (steps_of (total_weight g) (length g) (snd it)) = lround x"
    unfolding x_def using w W le len by (intro steps_of_positive(2)) simp_all
  ultimately have "64 \<le> steps_of (total_weight g) (length g) (snd it)" by simp
  with it show ?thesis by blast
qed

lemma steps_of_whole: "steps_of 1 1 1 = 64"
proof -
  have "(1::rat) / 1 * of_nat ((64 * 1) mod 2 ^ 64) = of_nat 64" by simp
  then have "steps_of 1 1 1 = to_size_t (lround (of_nat 64))"
    unfolding steps_of_def Let_def by (rule arg_cong)
  then show ?thesis by (simp only: lround_of_nat) (simp add: to_size_t_def)
qed

lemma steps_of_half: "steps_of 2 2 1 = 64"
proof -
  have "(1::rat) / 2 * of_nat ((64 * 2) mod 2 ^ 64) = of_nat 64" by simp
  then have "steps_of 2 2 1 = to_size_t (lround (of_nat 64))"
    unfolding steps_of_def Let_def by (rule arg_cong)
  then show ?thesis by (simp only: lround_of_nat) (simp add: to_size_t_def)
qed

subsection \<open>The elements that construction appends\<close>

lemma length_fold_rounds:
  "length (fold (\<lambda>step es. es @ hash_round H v step) ss es) = length es + 4 * length ss"
  by (induction ss arbitrary: es) (simp_all add: length_hash_round)

lemma length_add_member:
  "length (add_member H weight len it es) = length es + 4 * steps_of weight len (snd it)"
  by (simp add: add_member_def Let_def length_fold_rounds)

lemma length_fold_add_member:
  "length (fold (add_member H weight len) g es)
     = length es + 4 * (\<Sum>it\<leftarrow>g. steps_of weight len (snd it))"
  by (induction g arbitrary: es) (simp_all add: length_add_member algebra_simps)

lemma length_populate:
  "length (populate H g) = 4 * (\<Sum>it\<leftarrow>g. steps_of (total_weight g) (length g) (snd it))"
  by (simp add: populate_def length_fold_add_member)

lemma set_fold_rounds:
  "set (fold (\<lambda>step es. es @ hash_round H v step) ss es)
     = set es \<union> (\<Union>s\<in>set ss. set (hash_round H v s))"
  by (induction ss arbitrary: es) auto

lemma set_add_member:
  "set (add_member H weight len it es)
     = set es \<union> (\<Union>s\<in>{..<steps_of weight len (snd it)}. set (hash_round H (fst it) s))"
  by (auto simp add: add_member_def Let_def set_fold_rounds)

lemma set_fold_add_member:
  "set (fold (add_member H weight len) g es)
     = set es \<union>
       (\<Union>it\<in>set g. \<Union>s\<in>{..<steps_of weight len (snd it)}. set (hash_round H (fst it) s))"
  by (induction g arbitrary: es) (auto simp add: set_add_member)

lemma set_populate:
  "set (populate H g)
     = (\<Union>it\<in>set g. \<Union>s\<in>{..<steps_of (total_weight g) (length g) (snd it)}.
          set (hash_round H (fst it) s))"
  by (simp add: populate_def set_fold_add_member)

lemma populate_nonempty:
  assumes "it \<in> set g" "0 < steps_of (total_weight g) (length g) (snd it)"
  shows "populate H g \<noteq> []"
proof -
  obtain e where "e \<in> set (hash_round H (fst it) 0)"
    using hash_round_nonempty [of H "fst it" 0] by (cases "hash_round H (fst it) 0") auto
  with assms have "e \<in> set (populate H g)"
    unfolding set_populate by blast
  then show ?thesis by auto
qed

lemma populate_values:
  assumes "e \<in> set (populate H g)"
  shows "\<exists>it\<in>set g. value e = fst it \<and> 0 < steps_of (total_weight g) (length g) (snd it)"
proof -
  from assms obtain it s where "it \<in> set g" "s < steps_of (total_weight g) (length g) (snd it)"
    "e \<in> set (hash_round H (fst it) s)"
    unfolding set_populate by blast
  then show ?thesis using value_hash_round by fastforce
qed

lemma fold_rounds_append:
  "fold (\<lambda>step es. es @ hash_round H v step) ss es = es @ concat (map (hash_round H v) ss)"
  by (induction ss arbitrary: es) simp_all

lemma add_member_append:
  "add_member H weight len it es
     = es @ concat (map (hash_round H (fst it)) [0..<steps_of weight len (snd it)])"
  by (simp add: add_member_def Let_def fold_rounds_append)

lemma populate_pair:
  "populate H [it1, it2]
     = concat (map (hash_round H (fst it1)) [0..<steps_of (snd it1 + snd it2) 2 (snd it1)])
       @ concat (map (hash_round H (fst it2)) [0..<steps_of (snd it1 + snd it2) 2 (snd it2)])"
proof -
  have "length [it1, it2] = 2" by simp
  then show ?thesis
    unfolding populate_def by (simp only: fold.simps add_member_append total_weight_def)
      (simp add: add_member_append)
qed

subsection \<open>Elements per member\<close>

lemma count_hash_round:
  "length (filter (\<lambda>e. value e = u) (hash_round H v s)) = (if v = u then 4 else 0)"
  by (simp add: hash_round_def filter_map comp_def length_digest_points)

lemma count_fold_rounds:
  "length (filter (\<lambda>e. value e = u) (fold (\<lambda>step es. es @ hash_round H v step) ss es))
     = length (filter (\<lambda>e. value e = u) es) + (if v = u then 4 * length ss else 0)"
  by (induction ss arbitrary: es) (simp_all add: count_hash_round)

lemma count_add_member:
  "length (filter (\<lambda>e. value e = u) (add_member H weight len it es))
     = length (filter (\<lambda>e. value e = u) es)
       + (if fst it = u then 4 * steps_of weight len (snd it) else 0)"
  by (simp add: add_member_def Let_def count_fold_rounds)

lemma count_fold_add_member:
  "length (filter (\<lambda>e. value e = u) (fold (add_member H weight len) g es))
     = length (filter (\<lambda>e. value e = u) es)
       + (\<Sum>it\<leftarrow>g. if fst it = u then 4 * steps_of weight len (snd it) else 0)"
  by (induction g arbitrary: es) (simp_all add: count_add_member)

lemma sum_list_single_key:
  fixes f :: "rat \<Rightarrow> nat"
  assumes "distinct (map fst g)" "(u, w) \<in> set g"
  shows "(\<Sum>it\<leftarrow>g. if fst it = u then f (snd it) else 0) = f w"
  using assms
proof (induction g)
  case Nil
  then show ?case by simp
next
  case (Cons a g)
  show ?case
  proof (cases "a = (u, w)")
    case True
    then have "u \<notin> fst ` set g" using Cons.prems(1) by simp
    then have "\<forall>it\<in>set g. fst it \<noteq> u" by auto
    then have "(\<Sum>it\<leftarrow>g. if fst it = u then f (snd it) else 0) = 0"
      by (induction g) simp_all
    with True show ?thesis by simp
  next
    case False
    with Cons.prems have in_g: "(u, w) \<in> set g" by simp
    then have "u \<in> fst ` set g" by force
    with Cons.prems(1) have "fst a \<noteq> u" by auto
    with Cons.IH in_g Cons.prems(1) show ?thesis by simp
  qed
qed

lemma count_populate:
  assumes "distinct (map fst g)" "(u, w) \<in> set g"
  shows "length (filter (\<lambda>e. value e = u) (populate H g))
           = 4 * steps_of (total_weight g) (length g) w"
  unfolding populate_def count_fold_add_member
  using sum_list_single_key [OF assms, of "\<lambda>w. 4 * steps_of (total_weight g) (length g) w"]
  by simp

subsection \<open>The binary search on a sequence ordered by point\<close>

lemma upper_bound_loop_partition:
  "by_point xs \<Longrightarrow> first + len \<le> length xs \<Longrightarrow>
         (\<forall>j<first. point (xs ! j) \<le> val) \<Longrightarrow>
         (\<forall>j. first + len \<le> j \<and> j < length xs \<longrightarrow> val < point (xs ! j)) \<Longrightarrow>
         upper_bound_loop xs val first len \<le> length xs \<and>
         (\<forall>j<upper_bound_loop xs val first len. point (xs ! j) \<le> val) \<and>
         (\<forall>j. upper_bound_loop xs val first len \<le> j \<and> j < length xs \<longrightarrow> val < point (xs ! j))"
proof (induction xs val first len rule: upper_bound_loop.induct)
  case (1 xs val first len)
  have sorted: "point (xs ! i) \<le> point (xs ! j)" if "i < j" "j < length xs" for i j
    using sorted_wrt_nth_less [OF "1.prems"(1) [unfolded by_point_def] that] .
  show ?case
  proof (cases "len = 0")
    case True
    with "1.prems" show ?thesis by (subst (1 2 3) upper_bound_loop.simps) simp
  next
    case False
    define half where "half = len div 2"
    define middle where "middle = first + half"
    have mid: "middle < length xs" "half < len"
      using False "1.prems"(2) by (auto simp add: middle_def half_def)
    show ?thesis
    proof (cases "val < point (xs ! middle)")
      case True
      have above: "\<forall>j. first + half \<le> j \<and> j < length xs \<longrightarrow> val < point (xs ! j)"
      proof (intro allI impI)
        fix j assume j: "first + half \<le> j \<and> j < length xs"
        show "val < point (xs ! j)"
        proof (cases "j = middle")
          case True with \<open>val < point (xs ! middle)\<close> show ?thesis by simp
        next
          case False
          with j have "middle < j" by (simp add: middle_def)
          with j have "point (xs ! middle) \<le> point (xs ! j)" by (simp add: sorted)
          with True show ?thesis by simp
        qed
      qed
      have "first + half \<le> length xs" using mid by (simp add: middle_def)
      from "1.IH"(1) [OF False half_def middle_def True "1.prems"(1) this "1.prems"(3) above]
      show ?thesis using False True
        by (subst (1 2 3) upper_bound_loop.simps) (simp add: Let_def half_def middle_def)
    next
      case False
      have below: "\<forall>j<middle + 1. point (xs ! j) \<le> val"
      proof (intro allI impI)
        fix j assume j: "j < middle + 1"
        show "point (xs ! j) \<le> val"
        proof (cases "j = middle")
          case True with False show ?thesis by simp
        next
          case neq: False
          with j have "j < middle" by simp
          with mid have "point (xs ! j) \<le> point (xs ! middle)" by (simp add: sorted)
          with False show ?thesis by simp
        qed
      qed
      have eq: "middle + 1 + (len - half - 1) = first + len"
        using mid by (simp add: middle_def)
      have le: "middle + 1 + (len - half - 1) \<le> length xs"
        using eq "1.prems"(2) by simp
      have above: "\<forall>j. middle + 1 + (len - half - 1) \<le> j \<and> j < length xs \<longrightarrow> val < point (xs ! j)"
        using "1.prems"(4) eq by simp
      from "1.IH"(2) [OF \<open>len \<noteq> 0\<close> half_def middle_def False "1.prems"(1) le below above]
      show ?thesis using \<open>len \<noteq> 0\<close> False
        by (subst (1 2 3) upper_bound_loop.simps) (simp add: Let_def half_def middle_def)
    qed
  qed
qed

lemma upper_bound_partition:
  assumes "by_point xs"
  shows "upper_bound xs val \<le> length xs"
    and "j < upper_bound xs val \<Longrightarrow> point (xs ! j) \<le> val"
    and "upper_bound xs val \<le> j \<Longrightarrow> j < length xs \<Longrightarrow> val < point (xs ! j)"
proof -
  have "0 + length xs \<le> length xs" by simp
  moreover have "\<forall>j<0. point (xs ! j) \<le> val" by simp
  moreover have "\<forall>j. 0 + length xs \<le> j \<and> j < length xs \<longrightarrow> val < point (xs ! j)" by auto
  ultimately have *: "upper_bound_loop xs val 0 (length xs) \<le> length xs \<and>
         (\<forall>j<upper_bound_loop xs val 0 (length xs). point (xs ! j) \<le> val) \<and>
         (\<forall>j. upper_bound_loop xs val 0 (length xs) \<le> j \<and> j < length xs \<longrightarrow> val < point (xs ! j))"
    using assms by (intro upper_bound_loop_partition)
  show "upper_bound xs val \<le> length xs"
    using * by (simp add: upper_bound_def)
  show "j < upper_bound xs val \<Longrightarrow> point (xs ! j) \<le> val"
    using * by (simp add: upper_bound_def)
  show "upper_bound xs val \<le> j \<Longrightarrow> j < length xs \<Longrightarrow> val < point (xs ! j)"
    using * by (simp add: upper_bound_def)
qed

lemma filter_above_drop:
  assumes "by_point xs"
  shows "filter (\<lambda>e. val < point e) xs = drop (upper_bound xs val) xs"
proof -
  define i where "i = upper_bound xs val"
  have i: "i \<le> length xs" using upper_bound_partition(1) [OF assms] by (simp add: i_def)
  have "\<forall>e\<in>set (take i xs). \<not> val < point e"
  proof
    fix e assume "e \<in> set (take i xs)"
    then obtain j where "j < i" "e = xs ! j"
      using i by (auto simp add: in_set_conv_nth)
    then show "\<not> val < point e"
      using upper_bound_partition(2) [OF assms, of j val] by (simp add: i_def not_less)
  qed
  then have low: "filter (\<lambda>e. val < point e) (take i xs) = []"
    by (simp add: filter_empty_conv)
  have "\<forall>e\<in>set (drop i xs). val < point e"
  proof
    fix e assume "e \<in> set (drop i xs)"
    then obtain j where "j < length xs - i" "e = xs ! (i + j)"
      using i by (auto simp add: in_set_conv_nth)
    then show "val < point e"
      using upper_bound_partition(3) [OF assms, of val "i + j"] by (simp add: i_def)
  qed
  then have high: "filter (\<lambda>e. val < point e) (drop i xs) = drop i xs"
    by (simp add: filter_id_conv)
  have "filter (\<lambda>e. val < point e) xs
          = filter (\<lambda>e. val < point e) (take i xs) @ filter (\<lambda>e. val < point e) (drop i xs)"
    by (metis append_take_drop_id filter_append)
  with low high show ?thesis by (simp add: i_def)
qed

lemma upper_bound_takeWhile:
  assumes "by_point xs"
  shows "upper_bound xs val = length (takeWhile (\<lambda>e. \<not> val < point e) xs)"
proof -
  define i where "i = upper_bound xs val"
  have i: "i \<le> length xs" using upper_bound_partition(1) [OF assms] by (simp add: i_def)
  have "takeWhile (\<lambda>e. \<not> val < point e) xs = take i xs"
  proof (rule takeWhile_eq_take_P_nth)
    fix j assume "j < i" "j < length xs"
    then show "\<not> val < point (xs ! j)"
      using upper_bound_partition(2) [OF assms, of j val] by (simp add: i_def not_less)
  next
    assume "i < length xs"
    then show "\<not> \<not> val < point (xs ! i)"
      using upper_bound_partition(3) [OF assms, of val i] by (simp add: i_def)
  qed
  then show ?thesis using i by (simp add: i_def)
qed

lemma locate_sorted:
  assumes "by_point xs"
  shows "locate xs val =
           (case filter (\<lambda>e. val < point e) xs of
              [] \<Rightarrow> (case xs of [] \<Rightarrow> None | front # _ \<Rightarrow> Some front)
            | e # _ \<Rightarrow> Some e)"
proof -
  define i where "i = upper_bound xs val"
  have i: "i \<le> length xs" using upper_bound_partition(1) [OF assms] by (simp add: i_def)
  have f: "filter (\<lambda>e. val < point e) xs = drop i xs"
    using filter_above_drop [OF assms] by (simp add: i_def)
  show ?thesis
  proof (cases "i = length xs")
    case True
    then show ?thesis using f by (simp add: locate_def i_def [symmetric])
  next
    case False
    with i have "i < length xs" by simp
    then have "drop i xs = xs ! i # drop (Suc i) xs"
      by (simp add: Cons_nth_drop_Suc)
    then show ?thesis using f False
      by (simp add: locate_def i_def [symmetric])
  qed
qed

lemma locate_in_set:
  assumes "by_point xs" "locate xs p = Some e"
  shows "e \<in> set xs"
proof -
  have "filter (\<lambda>e. p < point e) xs = e' # es \<Longrightarrow> e' \<in> set xs" for e' es
  proof -
    assume "filter (\<lambda>e. p < point e) xs = e' # es"
    then have "e' \<in> set (filter (\<lambda>e. p < point e) xs)" by simp
    then show "e' \<in> set xs" by simp
  qed
  with assms show ?thesis
    by (auto simp add: locate_sorted split: list.splits)
qed

lemma locate_total:
  assumes "by_point xs" "xs \<noteq> []"
  shows "\<exists>e. locate xs p = Some e"
  using assms by (auto simp add: locate_sorted split: list.splits)

lemma locate_value:
  assumes "by_point xs" "xs \<noteq> []" "\<forall>e\<in>set xs. value e = v"
  shows "map_option value (locate xs p) = Some v"
proof -
  from locate_total [OF assms(1,2)] obtain e where e: "locate xs p = Some e" by blast
  with locate_in_set [OF assms(1) e] assms(3) show ?thesis by simp
qed

lemma locate_values_subset:
  assumes "by_point xs" "map_option value (locate xs p) = Some v"
  shows "v \<in> value ` set xs"
proof -
  from assms(2) obtain e where e: "locate xs p = Some e" "value e = v" by auto
  with locate_in_set [OF assms(1) e(1)] show ?thesis by auto
qed

subsection \<open>What the contract of the sort gives\<close>

lemma sort_contract_set: "sort_contract srt \<Longrightarrow> set (srt xs) = set xs"
  unfolding sort_contract_def by (metis set_mset_mset)

lemma sort_contract_length: "sort_contract srt \<Longrightarrow> length (srt xs) = length xs"
  unfolding sort_contract_def by (metis size_mset)

lemma sort_contract_by_point: "sort_contract srt \<Longrightarrow> by_point (srt xs)"
  by (simp add: sort_contract_def by_point_def elem_less_def not_less)

lemma sort_contract_count:
  assumes "sort_contract srt"
  shows "length (filter P (srt xs)) = length (filter P xs)"
proof -
  have "mset (filter P (srt xs)) = mset (filter P xs)"
    using assms by (simp add: sort_contract_def)
  then show ?thesis by (metis size_mset)
qed

lemma sort_key_contract: "sort_contract (sort_key point)"
proof -
  have "sorted_wrt (\<lambda>a b. point a \<le> point b) (sort_key point xs)" for xs :: "element_t list"
    using sorted_sort_key [of point xs] by (simp add: sorted_map)
  then show ?thesis by (simp add: sort_contract_def elem_less_def not_less)
qed



subsection \<open>Groups in map order\<close>

lemma map_order_distinct: "map_order g \<Longrightarrow> distinct (map fst g)"
  by (simp add: map_order_def strict_sorted_iff)

lemma map_order_unique:
  assumes "map_order g1" "map_order g2" "set g1 = set g2"
  shows "g1 = g2"
proof -
  have d: "distinct (map fst g1)" "distinct (map fst g2)"
    using assms by (simp_all add: map_order_distinct)
  have "set (map fst g1) = set (map fst g2)" using assms(3) by simp
  then have keys: "map fst g1 = map fst g2"
    using assms(1,2) by (auto simp add: map_order_def strict_sorted_iff intro: sorted_distinct_set_unique)
  have "map_of g1 = map_of g2" using d assms(3) by (simp add: map_of_inject_set)
  have "g = map (\<lambda>k. (k, the (map_of g k))) (map fst g)" if "distinct (map fst g)" for g :: stored_type
  proof -
    have "map (\<lambda>it. (fst it, the (map_of g (fst it)))) g = map (\<lambda>it. it) g"
    proof (rule map_cong [OF refl])
      fix it assume "it \<in> set g"
      then have "(fst it, snd it) \<in> set g" by simp
      then have "map_of g (fst it) = Some (snd it)"
        using that by (simp only: map_of_eq_Some_iff)
      then show "(fst it, the (map_of g (fst it))) = it" by simp
    qed
    then show ?thesis by (simp add: comp_def)
  qed
  from this [OF d(1)] this [OF d(2)] keys \<open>map_of g1 = map_of g2\<close>
  show ?thesis by simp
qed

subsection \<open>The constructor and the observers\<close>

lemma ctor_Inr:
  "continuum_ctor srt H rng0 g = Inr c \<longleftrightarrow>
     g \<noteq> [] \<and> epsilon \<le> total_weight g \<and> c = \<lparr>m_elements = srt (populate H g), m_rng = rng0\<rparr>"
  by (auto simp add: continuum_ctor_def Let_def not_less)

lemma ctor_Inl:
  "continuum_ctor srt H rng0 g = Inl e \<longleftrightarrow>
     (g = [] \<or> total_weight g < epsilon) \<and> e = InvalidGroup"
  by (auto simp add: continuum_ctor_def Let_def)

lemma ctor_elements:
  assumes "continuum_ctor srt H rng0 g = Inr c"
  shows "m_elements c = srt (populate H g)" "g \<noteq> []" "epsilon \<le> total_weight g"
  using assms by (simp_all add: ctor_Inr)

lemma built_nonempty:
  assumes srt: "sort_contract srt" and c: "continuum_ctor srt H rng0 g = Inr c"
    and nonneg: "\<forall>it\<in>set g. 0 \<le> snd it" and len: "length g < 2 ^ 58"
  shows "m_elements c \<noteq> []"
proof -
  have "0 < epsilon" by (simp add: epsilon_def)
  with ctor_elements(3) [OF c] have W: "0 < total_weight g" by simp
  from heavy_member_steps [OF ctor_elements(2) [OF c] nonneg W len]
  obtain it where "it \<in> set g" "64 \<le> steps_of (total_weight g) (length g) (snd it)" by blast
  then have "populate H g \<noteq> []" by (intro populate_nonempty [of it]) simp_all
  then have "length (srt (populate H g)) \<noteq> 0"
    by (simp add: sort_contract_length [OF srt])
  then show ?thesis by (simp add: ctor_elements(1) [OF c])
qed

lemma built_by_point:
  assumes "sort_contract srt" "continuum_ctor srt H rng0 g = Inr c"
  shows "by_point (m_elements c)"
  using assms by (simp add: ctor_Inr sort_contract_by_point)

lemma built_values:
  assumes srt: "sort_contract srt" and c: "continuum_ctor srt H rng0 g = Inr c"
    and e: "e \<in> set (m_elements c)"
  shows "\<exists>it\<in>set g. value e = fst it \<and> 0 < steps_of (total_weight g) (length g) (snd it)"
proof -
  from e have "e \<in> set (populate H g)"
    by (simp add: ctor_elements(1) [OF c] sort_contract_set [OF srt])
  then show ?thesis by (rule populate_values)
qed

lemma built_member_count:
  assumes "sort_contract srt" and "continuum_ctor srt H rng0 g = Inr c"
    and "distinct (map fst g)" and "(u, w) \<in> set g"
  shows "length (filter (\<lambda>e. value e = u) (m_elements c))
           = 4 * steps_of (total_weight g) (length g) w"
  using assms
  by (simp add: ctor_Inr sort_contract_count count_populate)


lemma fst_get: "fst (continuum_get H c k) = map_option value (locate (m_elements c) (key_point H k))"
  by (simp add: continuum_get_def Let_def)

lemma fst_get_keyless:
  "fst (continuum_get_keyless draw c)
     = map_option value (locate (m_elements c) (fst (draw (m_rng c))))"
  by (simp add: continuum_get_keyless_def Let_def case_prod_beta)

lemma snd_get_keyless:
  "snd (continuum_get_keyless draw c) = c\<lparr>m_rng := snd (draw (m_rng c))\<rparr>"
  by (simp add: continuum_get_keyless_def Let_def case_prod_beta)

subsection \<open>What a stable sort would give\<close>

text \<open>
  Construction appends the elements member by member in the order of the map, so the values
  do not decrease along the appended sequence. A sort that keeps elements of the same point
  in the order of its input, as \<open>sort_key\<close> does, would leave them ordered by value; the
  contract of \<^verbatim>\<open>std::sort\<close> does not promise it.
\<close>

lemma insort_by_point_value:
  assumes "by_point_value ys" and "\<forall>z\<in>set ys. value x \<le> value z"
  shows "by_point_value (insort_key point x ys)"
  using assms
proof (induction ys)
  case Nil
  then show ?case by (simp add: by_point_value_def)
next
  case (Cons y ys)
  then show ?case
    by (auto simp add: by_point_value_def set_insort_key not_le)
qed

lemma sort_key_by_point_value:
  assumes "sorted (map value xs)"
  shows "by_point_value (sort_key point xs)"
  using assms
proof (induction xs)
  case Nil
  then show ?case by (simp add: by_point_value_def)
next
  case (Cons x xs)
  then have "by_point_value (sort_key point xs)" by simp
  moreover have "\<forall>z\<in>set (sort_key point xs). value x \<le> value z"
    using Cons.prems by simp
  ultimately show ?case by (simp add: insort_by_point_value)
qed

lemma values_fold_rounds:
  "map value (fold (\<lambda>step es. es @ hash_round H v step) ss es)
     = map value es @ replicate (4 * length ss) v"
  by (induction ss arbitrary: es)
     (simp_all add: map_value_hash_round replicate_add [symmetric] del: replicate_add)

lemma values_add_member:
  "map value (add_member H weight len it es)
     = map value es @ replicate (4 * steps_of weight len (snd it)) (fst it)"
  by (simp add: add_member_def Let_def values_fold_rounds)

lemma sorted_values_fold_add_member:
  assumes "sorted (map fst g)" and "sorted (map value es)"
    and "\<forall>e\<in>set es. \<forall>it\<in>set g. value e \<le> fst it"
  shows "sorted (map value (fold (add_member H weight len) g es))"
  using assms
proof (induction g arbitrary: es)
  case Nil
  then show ?case by simp
next
  case (Cons it g)
  let ?es = "add_member H weight len it es"
  have vals: "map value ?es = map value es @ replicate (4 * steps_of weight len (snd it)) (fst it)"
    by (rule values_add_member)
  have s: "sorted (map value ?es)"
    unfolding vals using Cons.prems(2,3) by (auto simp add: sorted_append)
  have "set (map value ?es) \<subseteq> value ` set es \<union> {fst it}"
    unfolding vals by auto
  then have b: "\<forall>e\<in>set ?es. \<forall>it'\<in>set g. value e \<le> fst it'"
    using Cons.prems(1,3) by fastforce
  have "sorted (map fst g)" using Cons.prems(1) by simp
  from Cons.IH [OF this s b] show ?case by simp
qed

lemma sorted_values_populate:
  assumes "map_order g"
  shows "sorted (map value (populate H g))"
proof -
  have "sorted (map fst g)" using assms by (simp add: map_order_def strict_sorted_iff)
  then show ?thesis unfolding populate_def
    by (intro sorted_values_fold_add_member) simp_all
qed

lemma stable_sort_by_point_value:
  assumes "map_order g" and "continuum_ctor (sort_key point) H rng0 g = Inr c"
  shows "by_point_value (m_elements c)"
  using assms by (simp add: ctor_Inr sort_key_by_point_value sorted_values_populate)

subsection \<open>Evaluating digests\<close>

lemma replicate_numeral: "replicate (numeral k) x = x # replicate (pred_numeral k) x"
  by (simp add: numeral_eq_Suc)

lemma upt_0_numeral: "[0..<numeral n] = 0 # [Suc 0..<numeral n]"
  by (rule upt_conv_Cons) simp

lemma upt_Suc_0_numeral:
  "[Suc 0..<numeral n] = (if Suc 0 < numeral n then Suc 0 # [2..<numeral n] else [])"
  by (subst upt_rec) (simp add: numeral_2_eq_2)

lemmas md5_eval =
  md5_def md5_pad_def md5_block_def md5_step_def md5_K_def md5_s_def rotate_left_def
  octets_def encode_step_def replicate_numeral upt_0_numeral upt_Suc_0_numeral

lemma md5_node135_17:
  "md5 (octets ''node135'' @ encode_step 17) =
     [232, 23, 133, 132, 228, 50, 10, 225, 72, 250, 149, 123, 88, 196, 111, 50]"
  by (simp add: md5_eval)


lemma hash_round_node135_17:
  "hash_round md5 ''node135'' 17 =
     map (\<lambda>p. \<lparr>point = p, value = ''node135''\<rparr>) [2223314920, 3775541988, 2073426504, 846185560]"
  unfolding hash_round_def md5_node135_17 by (simp add: digest_points_def upt_0_numeral upt_Suc_0_numeral)


lemma md5_test_key:
  "md5 (octets ''test-key-42'') =
     [101, 77, 20, 159, 113, 241, 253, 125, 185, 8, 132, 150, 206, 200, 208, 220]"
  by (simp add: md5_eval)

lemma key_point_test_key: "key_point md5 ''test-key-42'' = 2830990435"
  unfolding key_point_def md5_test_key by (simp add: digest_points_def upt_0_numeral upt_Suc_0_numeral)

section \<open>The claims of the specification\<close>

text \<open>
  In the statements below \<open>srt\<close> is any function that keeps the contract of \<^verbatim>\<open>std::sort\<close>,
  \<open>H\<close> any digest function and \<open>rng0\<close> any generator state. A group is taken with weights
  that are not negative and with fewer than \<open>2\<^sup>5\<^sup>8\<close> members, the sizes for which
  \<^verbatim>\<open>64 * length\<close> and the rounded step counts stay in the range of \<^verbatim>\<open>size_t\<close>. The concrete
  instances run on \<open>md5\<close>.
\<close>

subsection \<open>C1: the keyed lookup\<close>

text \<open>
  C1. On a constructed continuum \<^verbatim>\<open>get(key)\<close> folds the digest of the key into the point
  \<open>p\<close>, the exclusive or of the four 32-bit words that the sixteen octets of the digest
  spell least significant octet first. It returns the value of the first element of the
  sequence whose point is greater than \<open>p\<close>, and no element with a point greater than \<open>p\<close>
  has a smaller point than that one; when no point is greater than \<open>p\<close> it returns the
  value of the first element of the sequence.
\<close>

theorem keyed_lookup:
  assumes srt: "sort_contract srt" and c: "continuum_ctor srt H rng0 grp = Inr c"
    and nonneg: "\<forall>it\<in>set grp. 0 \<le> snd it" and len: "length grp < 2 ^ 58"
  shows "m_elements c \<noteq> [] \<and>
    (let p = le_word (take 4 (H (octets k))) XOR le_word (take 4 (drop 4 (H (octets k))))
               XOR le_word (take 4 (drop 8 (H (octets k))))
               XOR le_word (take 4 (drop 12 (H (octets k))));
         above = filter (\<lambda>e. p < point e) (m_elements c)
     in fst (continuum_get H c k)
          = Some (value (if above = [] then hd (m_elements c) else hd above))
        \<and> (\<forall>e\<in>set above. point (hd above) \<le> point e))"
proof -
  define xs where "xs = m_elements c"
  define p where "p = key_point H k"
  define above where "above = filter (\<lambda>e. p < point e) xs"
  have ne: "xs \<noteq> []" unfolding xs_def by (rule built_nonempty [OF srt c nonneg len])
  have bp: "by_point xs" unfolding xs_def by (rule built_by_point [OF srt c])
  have "locate xs p =
          (case above of [] \<Rightarrow> (case xs of [] \<Rightarrow> None | front # _ \<Rightarrow> Some front)
           | e # _ \<Rightarrow> Some e)"
    unfolding above_def by (rule locate_sorted [OF bp])
  then have loc: "locate xs p = Some (if above = [] then hd xs else hd above)"
    using ne by (cases xs; cases above) simp_all
  have "sorted_wrt (\<lambda>a b. point a \<le> point b) above"
    using bp unfolding above_def by_point_def by (rule sorted_wrt_filter)
  then have least: "\<forall>e\<in>set above. point (hd above) \<le> point e"
    by (cases above) auto
  have "fst (continuum_get H c k) = map_option value (locate xs p)"
    by (simp add: continuum_get_def Let_def xs_def p_def)
  with loc least ne show ?thesis
    unfolding Let_def key_point_xor [symmetric] p_def [symmetric] xs_def [symmetric]
      above_def [symmetric]
    by simp
qed

text \<open>
  An instance: two members of equal weight and the key \<^verbatim>\<open>test-key-42\<close>, whose point is
  2830990435. The ring holds a point above it, so the lookup does not wrap.
\<close>

theorem keyed_lookup_witness:
  "sort_contract (sort_key point)
   \<and> length [(''node135'', 1 :: rat), (''node276'', 1)] < 2 ^ 58
   \<and> (\<exists>c. continuum_ctor (sort_key point) md5 () [(''node135'', 1), (''node276'', 1)] = Inr c
         \<and> m_elements c \<noteq> []
         \<and> (let above = filter (\<lambda>e. 2830990435 < point e) (m_elements c)
             in above \<noteq> []
                \<and> fst (continuum_get md5 c ''test-key-42'') = Some (value (hd above))
                \<and> (\<forall>e\<in>set above. point (hd above) \<le> point e)))"
proof -
  let ?g = "[(''node135'', 1 :: rat), (''node276'', 1)]"
  define c :: "unit continuum_t"
    where "c = \<lparr>m_elements = sort_key point (populate md5 ?g), m_rng = ()\<rparr>"
  define a where "a = \<lparr>point = 3775541988, value = ''node135''\<rparr>"
  have h1: "sort_contract (sort_key point)" by (rule sort_key_contract)
  have h2: "continuum_ctor (sort_key point) md5 () ?g = Inr c"
    by (simp add: ctor_Inr c_def total_weight_def epsilon_def)
  have h3: "\<forall>it\<in>set ?g. 0 \<le> snd it" by simp
  have h4: "length ?g < 2 ^ 58" by simp
  have "a \<in> set (hash_round md5 ''node135'' 17)"
    by (simp add: hash_round_node135_17 a_def)
  then have "a \<in> set (populate md5 ?g)"
    by (simp add: populate_pair steps_of_half) (intro disjI1 bexI [of _ 17], simp_all)
  then have "a \<in> set (m_elements c)" by (simp add: c_def)
  moreover have "2830990435 < point a" by (simp add: a_def)
  ultimately have above: "filter (\<lambda>e. 2830990435 < point e) (m_elements c) \<noteq> []"
    by (auto simp add: filter_empty_conv)
  have p: "le_word (take 4 (md5 (octets ''test-key-42'')))
             XOR le_word (take 4 (drop 4 (md5 (octets ''test-key-42''))))
             XOR le_word (take 4 (drop 8 (md5 (octets ''test-key-42''))))
             XOR le_word (take 4 (drop 12 (md5 (octets ''test-key-42'')))) = 2830990435"
    using key_point_test_key by (simp only: key_point_xor)
  define ab where "ab = filter (\<lambda>e. 2830990435 < point e) (m_elements c)"
  have "m_elements c \<noteq> [] \<and>
    fst (continuum_get md5 c ''test-key-42'')
      = Some (value (if ab = [] then hd (m_elements c) else hd ab))
    \<and> (\<forall>e\<in>set ab. point (hd ab) \<le> point e)"
    using keyed_lookup [OF h1 h2 h3 h4, of "''test-key-42''"]
    unfolding p Let_def ab_def .
  moreover have "ab \<noteq> []" unfolding ab_def by (rule above)
  ultimately have "m_elements c \<noteq> [] \<and>
    (ab \<noteq> [] \<and> fst (continuum_get md5 c ''test-key-42'') = Some (value (hd ab))
      \<and> (\<forall>e\<in>set ab. point (hd ab) \<le> point e))"
    by simp
  then have "m_elements c \<noteq> [] \<and>
    (let above = filter (\<lambda>e. 2830990435 < point e) (m_elements c)
     in above \<noteq> []
        \<and> fst (continuum_get md5 c ''test-key-42'') = Some (value (hd above))
        \<and> (\<forall>e\<in>set above. point (hd above) \<le> point e))"
    unfolding ab_def Let_def .
  with h1 h2 h3 h4 show ?thesis by blast
qed

subsection \<open>C2: the number of elements\<close>



subsection \<open>C3: when construction fails\<close>



subsection \<open>C4: lookups are total\<close>



subsection \<open>C5: the order of the sequence\<close>




subsection \<open>C6: the singleton group\<close>

text \<open>
  C6. The group of the one member \<^verbatim>\<open>alpha\<close> with weight 1 is accepted; its continuum has
  256 elements, every keyed and every keyless lookup returns \<^verbatim>\<open>alpha\<close>, and \<^verbatim>\<open>all()\<close>
  returns 256 tuples in ascending order of point.
\<close>

theorem singleton_group:
  assumes srt: "sort_contract srt"
  shows "\<exists>c. continuum_ctor srt H rng0 [(''alpha'', 1)] = Inr c
           \<and> length (m_elements c) = 256
           \<and> (\<forall>k. fst (continuum_get H c k) = Some ''alpha'')
           \<and> (\<forall>draw. fst (continuum_get_keyless draw c) = Some ''alpha'')
           \<and> length (fst (continuum_all c)) = 256
           \<and> sorted (map fst (fst (continuum_all c)))"
proof -
  define g :: stored_type where "g = [(''alpha'', 1)]"
  define c where "c = \<lparr>m_elements = srt (populate H g), m_rng = rng0\<rparr>"
  have W: "total_weight g = 1" by (simp add: g_def total_weight_def)
  have c: "continuum_ctor srt H rng0 g = Inr c"
    by (simp add: ctor_Inr c_def W epsilon_def) (simp add: g_def)
  have len: "length (m_elements c) = 256"
    by (simp add: c_def sort_contract_length [OF srt] length_populate W)
       (simp add: g_def steps_of_whole [unfolded One_nat_def])
  have bp: "by_point (m_elements c)" by (rule built_by_point [OF srt c])
  have ne: "m_elements c \<noteq> []" using len by auto
  have vals: "\<forall>e\<in>set (m_elements c). value e = ''alpha''"
  proof
    fix e assume "e \<in> set (m_elements c)"
    from built_values [OF srt c this] show "value e = ''alpha''" by (simp add: g_def)
  qed
  have "fst (continuum_get H c k) = Some ''alpha''" for k
    unfolding fst_get by (rule locate_value [OF bp ne vals])
  moreover have "fst (continuum_get_keyless draw c) = Some ''alpha''" for draw
    unfolding fst_get_keyless by (rule locate_value [OF bp ne vals])
  moreover have "length (fst (continuum_all c)) = 256"
    using len by (simp add: continuum_all_def)
  moreover have "sorted (map fst (fst (continuum_all c)))"
    using bp by (simp add: by_point_def continuum_all_def sorted_map comp_def)
  ultimately show ?thesis using c len unfolding g_def by blast
qed

theorem singleton_group_witness:
  "sort_contract (sort_key point)
   \<and> (\<exists>c. continuum_ctor (sort_key point) md5 (42 :: nat) [(''alpha'', 1)] = Inr c
         \<and> length (m_elements c) = 256
         \<and> (\<forall>k. fst (continuum_get md5 c k) = Some ''alpha'')
         \<and> (\<forall>draw. fst (continuum_get_keyless draw c) = Some ''alpha'')
         \<and> length (fst (continuum_all c)) = 256
         \<and> sorted (map fst (fst (continuum_all c))))"
  using singleton_group [OF sort_key_contract, of md5 "42 :: nat"] sort_key_contract by blast

subsection \<open>C7: a member with no steps\<close>



subsection \<open>C8: construction is deterministic\<close>

text \<open>
  C8. Two constructions from the same members with the same weights, whatever the states of
  their generators, end alike: both fail, or both yield the same element sequence.
\<close>

theorem construction_deterministic:
  assumes "map_order g1" and "map_order g2" and "set g1 = set g2"
  shows "map_sum id m_elements (continuum_ctor srt H rng1 g1)
           = map_sum id m_elements (continuum_ctor srt H rng2 g2)"
proof -
  have "g1 = g2" using assms by (rule map_order_unique)
  then show ?thesis by (simp add: continuum_ctor_def Let_def)
qed

theorem construction_deterministic_witness:
  "map_order [(''a'', 1), (''b'', 2)]
   \<and> set [(''a'', 1 :: rat), (''b'', 2)] = set [(''a'', 1), (''b'', 2)]
   \<and> map_sum id m_elements (continuum_ctor (sort_key point) md5 (1 :: nat) [(''a'', 1), (''b'', 2)])
       = map_sum id m_elements (continuum_ctor (sort_key point) md5 (2 :: nat) [(''a'', 1), (''b'', 2)])"
proof -
  have h1: "map_order [(''a'', 1), (''b'', 2)]" by (simp add: map_order_def)
  have h2: "set [(''a'', 1 :: rat), (''b'', 2)] = set [(''a'', 1), (''b'', 2)]" by simp
  from construction_deterministic [OF h1 h1 h2, of "sort_key point" md5 "1 :: nat" "2 :: nat"] h1 h2
  show ?thesis by blast
qed

subsection \<open>C9: lookups leave the sequence alone\<close>

text \<open>
  C9. \<^verbatim>\<open>get(key)\<close> and \<^verbatim>\<open>all()\<close> leave the continuum as it was; the keyless \<^verbatim>\<open>get()\<close>
  replaces the state of the generator and nothing else, so the element sequence is the same
  before and after every lookup.
\<close>

theorem lookups_frame:
  "snd (continuum_get H c key) = c
   \<and> snd (continuum_all c) = c
   \<and> snd (continuum_get_keyless draw c) = c\<lparr>m_rng := snd (draw (m_rng c))\<rparr>
   \<and> m_elements (snd (continuum_get_keyless draw c)) = m_elements c"
  by (simp add: continuum_get_def continuum_all_def snd_get_keyless Let_def)

subsection \<open>C10: lookups return members of the group\<close>

text \<open>
  C10. Whatever a keyed or a keyless lookup returns on a continuum built from a group is
  the identifier of a member of that group, for every key, the empty one included; and on
  a group whose weights are not negative both lookups do return such an identifier.
\<close>

theorem lookup_membership:
  assumes srt: "sort_contract srt" and c: "continuum_ctor srt H rng0 grp = Inr c"
  shows "set_option (fst (continuum_get H c k)) \<subseteq> fst ` set grp
         \<and> set_option (fst (continuum_get_keyless draw c)) \<subseteq> fst ` set grp
         \<and> ((\<forall>it\<in>set grp. 0 \<le> snd it) \<and> length grp < 2 ^ 58 \<longrightarrow>
              (\<exists>v\<in>fst ` set grp. fst (continuum_get H c k) = Some v)
              \<and> (\<exists>v\<in>fst ` set grp. fst (continuum_get_keyless draw c) = Some v))"
proof -
  have bp: "by_point (m_elements c)" by (rule built_by_point [OF srt c])
  have keys: "value ` set (m_elements c) \<subseteq> fst ` set grp"
    using built_values [OF srt c] by fastforce
  have sub: "set_option (map_option value (locate (m_elements c) p)) \<subseteq> fst ` set grp" for p
  proof
    fix v assume "v \<in> set_option (map_option value (locate (m_elements c) p))"
    then have "map_option value (locate (m_elements c) p) = Some v"
      by (simp only: elem_set)
    from locate_values_subset [OF bp this] keys show "v \<in> fst ` set grp" by blast
  qed
  have total: "\<exists>v\<in>fst ` set grp. map_option value (locate (m_elements c) p) = Some v"
    if "\<forall>it\<in>set grp. 0 \<le> snd it" "length grp < 2 ^ 58" for p
  proof -
    have ne: "m_elements c \<noteq> []" by (rule built_nonempty [OF srt c that])
    from locate_total [OF bp ne, of p] obtain e where e: "locate (m_elements c) p = Some e"
      by blast
    then have "map_option value (locate (m_elements c) p) = Some (value e)" by simp
    moreover from sub [of p] e have "value e \<in> fst ` set grp" by simp
    ultimately show ?thesis by blast
  qed
  show ?thesis
    unfolding fst_get fst_get_keyless using sub total by blast
qed

theorem lookup_membership_witness:
  "sort_contract (sort_key point)
   \<and> length [(''alpha'', 1 :: rat)] < 2 ^ 58
   \<and> (\<exists>c. continuum_ctor (sort_key point) md5 (42 :: nat) [(''alpha'', 1)] = Inr c
         \<and> fst (continuum_get md5 c []) = Some ''alpha''
         \<and> fst (continuum_get_keyless (\<lambda>s. (of_nat s, Suc s)) c) = Some ''alpha'')"
proof -
  define c :: "nat continuum_t"
    where "c = \<lparr>m_elements = sort_key point (populate md5 [(''alpha'', 1)]), m_rng = 42\<rparr>"
  have h1: "sort_contract (sort_key point)" by (rule sort_key_contract)
  have h2: "continuum_ctor (sort_key point) md5 (42 :: nat) [(''alpha'', 1)] = Inr c"
    by (simp add: ctor_Inr c_def total_weight_def epsilon_def)
  have h3: "\<forall>it\<in>set [(''alpha'', 1 :: rat)]. 0 \<le> snd it" by simp
  have h4: "length [(''alpha'', 1 :: rat)] < 2 ^ 58" by simp
  from lookup_membership [OF h1 h2, of "[]" "\<lambda>s. (of_nat s, Suc s)"] h3 h4
  have "fst (continuum_get md5 c []) = Some ''alpha''"
    and "fst (continuum_get_keyless (\<lambda>s. (of_nat s, Suc s)) c) = Some ''alpha''"
    by auto
  with h1 h2 h3 h4 show ?thesis by blast
qed

end
